theory Spec2Isabelle
  imports Complex_Main "HOL-Library.Signed_Division"
begin

section \<open>Audio spectrum analysis pipeline of the GUI media service\<close>

text \<open>
  The development embeds \<^verbatim>\<open>thirdparty/fft.cpp\<close>, \<^verbatim>\<open>thirdparty/fftcalc.cpp\<close> and the
  spectrum slot of \<^verbatim>\<open>mediaservice.cpp\<close>.

  Numbers. C++ \<^verbatim>\<open>int\<close> values are modelled as \<open>int\<close>; the only arithmetic on them is
  \<^verbatim>\<open>size/512\<close>, \<^verbatim>\<open>duration/numberOfChunks\<close>, \<^verbatim>\<open>pass++\<close> and \<^verbatim>\<open>pass*512\<close>, with C++
  division (truncation towards zero, \<open>sdiv\<close>) and division by zero as an error value.
  A \<^verbatim>\<open>double\<close> or \<^verbatim>\<open>float\<close> is modelled without rounding: a finite value is a real number,
  and the special values NaN, +Inf and -Inf are kept, because the shaping step produces
  and compares them. Signed zeros are not distinguished. The constant \<^verbatim>\<open>PI\<close> of
  \<^verbatim>\<open>fft.h\<close> stands for the real number \<open>pi\<close>. The samples of a submitted buffer are
  finite, so the transform works on complex numbers; the shaping step is defined on the
  extended values and takes any magnitudes, NaN and the infinities included.
\<close>

subsection \<open>Errors\<close>

datatype error = DivisionByZero | UninitialisedRead | OutOfBounds

subsection \<open>Floating-point values\<close>

datatype fval = NaN | NInf | PInf | Fin real

fun flt :: "fval \<Rightarrow> fval \<Rightarrow> bool" where
  "flt NaN _ = False"
| "flt _ NaN = False"
| "flt (Fin x) (Fin y) = (x < y)"
| "flt (Fin x) PInf = True"
| "flt (Fin x) NInf = False"
| "flt NInf NInf = False"
| "flt NInf _ = True"
| "flt PInf _ = False"

fun fmul :: "fval \<Rightarrow> fval \<Rightarrow> fval" where
  "fmul NaN _ = NaN"
| "fmul _ NaN = NaN"
| "fmul (Fin x) (Fin y) = Fin (x * y)"
| "fmul (Fin x) PInf = (if x = 0 then NaN else if 0 < x then PInf else NInf)"
| "fmul (Fin x) NInf = (if x = 0 then NaN else if 0 < x then NInf else PInf)"
| "fmul PInf (Fin y) = (if y = 0 then NaN else if 0 < y then PInf else NInf)"
| "fmul NInf (Fin y) = (if y = 0 then NaN else if 0 < y then NInf else PInf)"
| "fmul PInf PInf = PInf"
| "fmul PInf NInf = NInf"
| "fmul NInf PInf = NInf"
| "fmul NInf NInf = PInf"

fun fadd :: "fval \<Rightarrow> fval \<Rightarrow> fval" where
  "fadd NaN _ = NaN"
| "fadd _ NaN = NaN"
| "fadd (Fin x) (Fin y) = Fin (x + y)"
| "fadd PInf NInf = NaN"
| "fadd NInf PInf = NaN"
| "fadd PInf _ = PInf"
| "fadd NInf _ = NInf"
| "fadd (Fin x) PInf = PInf"
| "fadd (Fin x) NInf = NInf"

fun fdiv :: "fval \<Rightarrow> fval \<Rightarrow> fval" where
  "fdiv NaN _ = NaN"
| "fdiv _ NaN = NaN"
| "fdiv (Fin x) (Fin y) =
     (if y = 0 then (if x = 0 then NaN else if 0 < x then PInf else NInf) else Fin (x / y))"
| "fdiv (Fin x) PInf = Fin 0"
| "fdiv (Fin x) NInf = Fin 0"
| "fdiv PInf (Fin y) = (if 0 \<le> y then PInf else NInf)"
| "fdiv NInf (Fin y) = (if 0 \<le> y then NInf else PInf)"
| "fdiv PInf _ = NaN"
| "fdiv NInf _ = NaN"

fun flog10 :: "fval \<Rightarrow> fval" where
  "flog10 NaN = NaN"
| "flog10 NInf = NaN"
| "flog10 PInf = PInf"
| "flog10 (Fin x) = (if x < 0 then NaN else if x = 0 then NInf else Fin (log 10 x))"

text \<open>Qt's \<^verbatim>\<open>qMax(a, b)\<close> is \<^verbatim>\<open>(a < b) ? b : a\<close> and \<^verbatim>\<open>qMin(a, b)\<close> is \<^verbatim>\<open>(a < b) ? a : b\<close>.\<close>

definition qMax :: "fval \<Rightarrow> fval \<Rightarrow> fval" where
  "qMax a b = (if flt a b then b else a)"

definition qMin :: "fval \<Rightarrow> fval \<Rightarrow> fval" where
  "qMin a b = (if flt a b then a else b)"

text \<open>\<^verbatim>\<open>#define CLAMP(a,min,max) ((a) < (min) ? (min) : (a) > (max) ? (max) : (a))\<close>\<close>

definition CLAMP :: "fval \<Rightarrow> fval \<Rightarrow> fval \<Rightarrow> fval" where
  "CLAMP a mn mx = (if flt a mn then mn else if flt mx a then mx else a)"

text \<open>A value is a proper magnitude of a spectrum when it is finite and in \<open>[0,1]\<close>.\<close>

fun in_unit :: "fval \<Rightarrow> bool" where
  "in_unit (Fin r) = (0 \<le> r \<and> r \<le> 1)"
| "in_unit _ = False"

fun is_finite :: "fval \<Rightarrow> bool" where
  "is_finite (Fin r) = True"
| "is_finite _ = False"

subsection \<open>The transform (fft.cpp)\<close>

text \<open>\<^verbatim>\<open>x[std::slice(start, size, stride)]\<close>: the elements at \<open>start + j * stride\<close>, \<open>j < size\<close>.\<close>

definition slice :: "nat \<Rightarrow> nat \<Rightarrow> nat \<Rightarrow> 'a list \<Rightarrow> 'a list" where
  "slice start sz stride x = map (\<lambda>j. x ! (start + j * stride)) [0..<sz]"

text \<open>\<^verbatim>\<open>std::polar(1.0, -2 * PI * k / N)\<close>\<close>

definition twiddle :: "nat \<Rightarrow> nat \<Rightarrow> complex" where
  "twiddle k N = cis (- 2 * pi * real k / real N)"

text \<open>One iteration of the recombination loop, writing \<open>x[k]\<close> and \<open>x[k+N/2]\<close> in place.\<close>

definition butterfly_step :: "complex list \<Rightarrow> complex list \<Rightarrow> complex list \<Rightarrow> nat \<Rightarrow> complex list" where
  "butterfly_step evens odds x k =
     (let N = length x;
          t = twiddle k N * odds ! k
      in (x[k := evens ! k + t])[k + N div 2 := evens ! k - t])"

definition butterfly :: "complex list \<Rightarrow> complex list \<Rightarrow> complex list \<Rightarrow> complex list" where
  "butterfly x evens odds = foldl (butterfly_step evens odds) x [0..<length x div 2]"

function fft :: "complex list \<Rightarrow> complex list" where
  "fft x =
     (if length x \<le> 1 then x
      else butterfly x (fft (slice 0 (length x div 2) 2 x)) (fft (slice 1 (length x div 2) 2 x)))"
  by pat_completeness auto
termination
  by (relation "measure length") (auto simp: slice_def)

definition ifft :: "complex list \<Rightarrow> complex list" where
  "ifft x =
     (let x1 = map cnj x;
          x2 = fft x1;
          x3 = map cnj x2
      in map (\<lambda>z. z / of_nat (length x3)) x3)"

text \<open>The discrete Fourier transform, as reference for the recursion.\<close>

definition dft :: "complex list \<Rightarrow> nat \<Rightarrow> complex" where
  "dft x k = (\<Sum>j<length x. x ! j * cis (- 2 * pi * real j * real k / real (length x)))"

subsection \<open>Tables built by the constructor of BufferProcessor\<close>

text \<open>\<^verbatim>\<open>window[i] = 0.5 * (1 - cos((2*PI*i)/(SPECSIZE)))\<close>\<close>

definition window :: "nat \<Rightarrow> real" where
  "window i = 0.5 * (1 - cos ((2 * pi * real i) / 512))"

text \<open>\<^verbatim>\<open>logscale[i] = powf (SPECSIZE/2, (float) 2*i / SPECSIZE) - 0.5f\<close>\<close>

definition logscale :: "nat \<Rightarrow> real" where
  "logscale i = 256 powr (2 * real i / 512) - 0.5"

subsection \<open>Spectrum shaping (BufferProcessor::run, lines 97 to 132)\<close>

definition amplitude :: "fval \<Rightarrow> fval" where
  "amplitude m =
     (let SpectrumAnalyserMultiplier = Fin (1 / 100);
          a0 = fmul SpectrumAnalyserMultiplier m;
          a1 = qMax (Fin 0) a0
      in qMin (Fin 1) a1)"

text \<open>
  The real parts of \<^verbatim>\<open>complexFrame\<close> after the amplitude loop: the first 256 entries hold
  the clamped amplitudes of the magnitudes \<open>mags\<close>, the others still hold the real parts
  \<open>res\<close> of the transform.
\<close>

definition amplitude_frame :: "fval list \<Rightarrow> fval list \<Rightarrow> fval list" where
  "amplitude_frame mags res = map amplitude (take 256 mags) @ drop 256 res"

definition rd :: "fval list \<Rightarrow> int \<Rightarrow> error + fval" where
  "rd cf k = (if 0 \<le> k \<and> k < int (length cf) then Inr (cf ! nat k) else Inl OutOfBounds)"

text \<open>
  The terms added to \<^verbatim>\<open>sum\<close> for bucket \<open>i\<close>, in program order: the index read from
  \<^verbatim>\<open>complexFrame\<close> and the factor it is multiplied by (\<open>Whole\<close> for the plain addition
  of the inner loop).
\<close>

datatype weight = Whole | Part real

definition bucket_terms :: "nat \<Rightarrow> (int \<times> weight) list" where
  "bucket_terms i =
     (let a = \<lceil>logscale i\<rceil>;
          b = \<lfloor>logscale (i + 1)\<rfloor>
      in if b < a then [(b, Part (logscale (i + 1) - logscale i))]
         else (if a > 0 then [(a - 1, Part (of_int a - logscale i))] else [])
              @ map (\<lambda>k. (k, Whole)) [a..b - 1]
              @ (if b < 256 then [(b, Part (logscale (i + 1) - of_int b))] else []))"

fun add_term :: "fval list \<Rightarrow> fval \<Rightarrow> int \<times> weight \<Rightarrow> error + fval" where
  "add_term cf acc (k, w) =
     (case rd cf k of
        Inl e \<Rightarrow> Inl e
      | Inr v \<Rightarrow> Inr (fadd acc (case w of Whole \<Rightarrow> v | Part r \<Rightarrow> fmul v (Fin r))))"

fun sum_terms :: "fval list \<Rightarrow> fval \<Rightarrow> (int \<times> weight) list \<Rightarrow> error + fval" where
  "sum_terms cf acc [] = Inr acc"
| "sum_terms cf acc (t # ts) =
     (case add_term cf acc t of Inl e \<Rightarrow> Inl e | Inr acc' \<Rightarrow> sum_terms cf acc' ts)"

text \<open>The value of bucket \<open>i\<close> as it is handed to \<^verbatim>\<open>CLAMP\<close> (lines 109 to 124).\<close>

definition bucket_val :: "fval list \<Rightarrow> nat \<Rightarrow> error + fval" where
  "bucket_val cf i =
     (case sum_terms cf (Fin 0) (bucket_terms i) of
        Inl e \<Rightarrow> Inl e
      | Inr sum0 \<Rightarrow>
          let sum1 = fmul sum0 (Fin (512 / 24));
              val = fmul (Fin 20) (flog10 sum1);
              val1 = fadd (Fin 1) (fdiv val (Fin 40))
          in Inr val1)"

definition bucket :: "fval list \<Rightarrow> nat \<Rightarrow> error + fval" where
  "bucket cf i =
     (case bucket_val cf i of
        Inl e \<Rightarrow> Inl e
      | Inr val \<Rightarrow> Inr (CLAMP val (Fin 0) (Fin 1)))"

definition linear :: "fval list \<Rightarrow> nat \<Rightarrow> error + fval" where
  "linear cf i =
     (case rd cf (int i) of
        Inl e \<Rightarrow> Inl e
      | Inr v \<Rightarrow> Inr (CLAMP (fmul v (Fin 100)) (Fin 0) (Fin 1)))"

fun collect :: "(nat \<Rightarrow> error + fval) \<Rightarrow> nat list \<Rightarrow> error + fval list" where
  "collect f [] = Inr []"
| "collect f (i # is) =
     (case f i of
        Inl e \<Rightarrow> Inl e
      | Inr v \<Rightarrow> (case collect f is of Inl e \<Rightarrow> Inl e | Inr vs \<Rightarrow> Inr (v # vs)))"

definition shaping :: "bool \<Rightarrow> fval list \<Rightarrow> fval list \<Rightarrow> error + fval list" where
  "shaping compressed mags res =
     (let cf = amplitude_frame mags res
      in if compressed then collect (bucket cf) [0..<256]
         else collect (linear cf) [0..<256])"

subsection \<open>BufferProcessor: the chunk scheduler\<close>

datatype signal = CalculatedSpectrum "fval list" | AllDone

text \<open>
  The constructor assigns neither \<^verbatim>\<open>numberOfChunks\<close>, \<^verbatim>\<open>interval\<close> nor \<^verbatim>\<open>pass\<close>:
  they are \<open>None\<close> until first written, and reading \<open>None\<close> is an error (the read of an
  indeterminate value). The field \<open>timer\<close> is the interval of the running QTimer, \<open>None\<close>
  when it is stopped. The scratch vector \<^verbatim>\<open>complexFrame\<close> is rebuilt by every \<open>run\<close>
  before it is read and is local to \<open>run\<close> here; \<^verbatim>\<open>window\<close> and \<^verbatim>\<open>logscale\<close> never
  change after construction and are the tables above.
\<close>

record BufferProcessor =
  array :: "real list"
  spectrum :: "fval list"
  compressed :: bool
  running :: bool
  numberOfChunks :: "int option"
  interval :: "int option"
  pass :: "int option"
  timer :: "int option"

definition BufferProcessor_init :: BufferProcessor where
  "BufferProcessor_init =
     \<lparr>array = [], spectrum = replicate 256 (Fin 0), compressed = True, running = False,
      numberOfChunks = None, interval = None, pass = None, timer = Some 100\<rparr>"

text \<open>\<^verbatim>\<open>QVector::resize\<close>: truncate, or extend with default-constructed elements.\<close>

definition resize :: "'a \<Rightarrow> nat \<Rightarrow> 'a list \<Rightarrow> 'a list" where
  "resize d n xs = take n xs @ replicate (n - length xs) d"

definition processBuffer :: "BufferProcessor \<Rightarrow> real list \<Rightarrow> int \<Rightarrow> error + BufferProcessor" where
  "processBuffer s new_array duration =
     (let s1 = (if length (array s) \<noteq> length new_array
                then s\<lparr>numberOfChunks := Some (int (length new_array) sdiv 512),
                       array := resize 0 (length new_array) (array s)\<rparr>
                else s)
      in case numberOfChunks s1 of
           None \<Rightarrow> Inl UninitialisedRead
         | Some n \<Rightarrow>
             if n = 0 then Inl DivisionByZero
             else let i0 = duration sdiv n;
                      i1 = (if i0 < 1 then 1 else i0)
                  in Inr (s1\<lparr>interval := Some i1, array := new_array, pass := Some 0,
                             timer := Some i1\<rparr>))"

definition windowed_frame :: "real list \<Rightarrow> nat \<Rightarrow> complex list" where
  "windowed_frame samples p =
     map (\<lambda>i. Complex (window i * samples ! (i + p * 512)) 0) [0..<512]"

definition run :: "BufferProcessor \<Rightarrow> error + (BufferProcessor \<times> signal option)" where
  "run s =
     (case (pass s, numberOfChunks s) of
        (Some p, Some n) \<Rightarrow>
          if p = n then Inr (s, Some AllDone)
          else if length (array s) < 512 then Inr (s, None)
          else if p < 0 \<or> int (length (array s)) < p * 512 + 512 then Inl OutOfBounds
          else
            let complexFrame = fft (windowed_frame (array s) (nat p))
            in (case shaping (compressed s)
                       (map (\<lambda>z. Fin (cmod z)) complexFrame)
                       (map (\<lambda>z. Fin (Re z)) complexFrame) of
                  Inl e \<Rightarrow> Inl e
                | Inr sp \<Rightarrow>
                    Inr (s\<lparr>spectrum := sp, pass := Some (p + 1)\<rparr>, Some (CalculatedSpectrum sp)))
      | _ \<Rightarrow> Inl UninitialisedRead)"

text \<open>
  \<open>ticks n s\<close>: the timer fires \<open>n\<close> times with no submission in between; each timeout of
  a running timer calls \<open>run\<close>. The signals emitted are collected in order.
\<close>

fun ticks :: "nat \<Rightarrow> BufferProcessor \<Rightarrow> error + (BufferProcessor \<times> signal list)" where
  "ticks 0 s = Inr (s, [])"
| "ticks (Suc n) s =
     (case timer s of
        None \<Rightarrow> Inr (s, [])
      | Some ms \<Rightarrow>
          (case run s of
             Inl e \<Rightarrow> Inl e
           | Inr (s', sig) \<Rightarrow>
               (case ticks n s' of
                  Inl e \<Rightarrow> Inl e
                | Inr (s'', sigs) \<Rightarrow>
                    Inr (s'', (case sig of None \<Rightarrow> [] | Some e \<Rightarrow> [e]) @ sigs))))"

text \<open>The states reachable from the constructor by submissions and timer ticks.\<close>

inductive reachable :: "BufferProcessor \<Rightarrow> bool" where
  init: "reachable BufferProcessor_init"
| submit: "reachable s \<Longrightarrow> processBuffer s b d = Inr s' \<Longrightarrow> reachable s'"
| tick: "reachable s \<Longrightarrow> timer s \<noteq> None \<Longrightarrow> run s = Inr (s', sig) \<Longrightarrow> reachable s'"

definition completions :: "signal list \<Rightarrow> nat" where
  "completions sigs = length (filter (\<lambda>e. e = AllDone) sigs)"

text \<open>
  \<open>schedule b d n\<close>: a buffer is submitted to a freshly constructed processor and the
  timer then fires \<open>n\<close> times. \<open>signals_of\<close> and \<open>timer_of\<close> read the signals emitted
  and the timer of the final state.
\<close>

definition schedule :: "real list \<Rightarrow> int \<Rightarrow> nat \<Rightarrow> error + (BufferProcessor \<times> signal list)" where
  "schedule b d n =
     (case processBuffer BufferProcessor_init b d of
        Inl e \<Rightarrow> Inl e
      | Inr s \<Rightarrow> ticks n s)"

fun signals_of :: "error + (BufferProcessor \<times> signal list) \<Rightarrow> signal list" where
  "signals_of (Inl e) = []"
| "signals_of (Inr (s, sigs)) = sigs"

fun timer_of :: "error + (BufferProcessor \<times> signal list) \<Rightarrow> int option" where
  "timer_of (Inl e) = None"
| "timer_of (Inr (s, sigs)) = timer s"

subsection \<open>FFTCalc: the analysis engine\<close>

text \<open>
  \<open>queued\<close> holds the \<^verbatim>\<open>processBuffer\<close> invocations posted by \<^verbatim>\<open>calc\<close> through the
  queued connection and not yet delivered to the processor.
\<close>

record FFTCalc =
  isBusy :: bool
  processor :: BufferProcessor
  queued :: "(real list \<times> int) list"

definition FFTCalc_init :: FFTCalc where
  "FFTCalc_init = \<lparr>isBusy = False, processor = BufferProcessor_init, queued = []\<rparr>"

definition calc :: "FFTCalc \<Rightarrow> real list \<Rightarrow> int \<Rightarrow> FFTCalc" where
  "calc f new_array duration = f\<lparr>queued := queued f @ [(new_array, duration)]\<rparr>"

definition freeCalc :: "FFTCalc \<Rightarrow> FFTCalc" where
  "freeCalc f = f\<lparr>isBusy := False\<rparr>"

text \<open>Delivery of a processor signal to the slot connected in the constructor.\<close>

fun deliver :: "FFTCalc \<Rightarrow> signal \<Rightarrow> FFTCalc" where
  "deliver f AllDone = freeCalc f"
| "deliver f (CalculatedSpectrum sp) = f"

text \<open>
  The states of the engine: after construction, after a \<^verbatim>\<open>calc\<close>, after the processor
  took the oldest queued invocation, after a timeout ran the processor, and after a signal
  was delivered to its slot (at any later time: the connections are queued).
\<close>

inductive engine_reachable :: "FFTCalc \<Rightarrow> bool" where
  constructed: "engine_reachable FFTCalc_init"
| submitted: "engine_reachable f \<Longrightarrow> engine_reachable (calc f a d)"
| invoked: "engine_reachable f \<Longrightarrow> queued f = (a, d) # q
     \<Longrightarrow> processBuffer (processor f) a d = Inr p
     \<Longrightarrow> engine_reachable (f\<lparr>processor := p, queued := q\<rparr>)"
| timeout: "engine_reachable f \<Longrightarrow> run (processor f) = Inr (p, sig)
     \<Longrightarrow> engine_reachable (f\<lparr>processor := p\<rparr>)"
| delivered: "engine_reachable f \<Longrightarrow> engine_reachable (deliver f sig)"

subsection \<open>MediaService: decimation of a spectrum for display\<close>

function decimate_loop ::
  "fval list \<Rightarrow> int \<Rightarrow> int \<Rightarrow> nat \<Rightarrow> fval list \<Rightarrow> error + fval list" where
  "decimate_loop sp step i j m =
     (if i < int (length sp)
      then (if 0 \<le> i \<and> j < length m
            then decimate_loop sp step (i + step) (Suc j) (m[j := sp ! nat i])
            else Inl OutOfBounds)
      else Inr m)"
  by pat_completeness auto
termination
  by (relation "measure (\<lambda>(sp, step, i, j, m). length m - j)") auto

definition calculatedSpectrum_slot :: "fval list \<Rightarrow> fval list \<Rightarrow> error + fval list" where
  "calculatedSpectrum_slot m_spectrum sp =
     (let size = 20;
          m = resize (Fin 0) (nat size) m_spectrum
      in decimate_loop sp (int (length sp) sdiv (size - 1)) 0 0 m)"

subsection \<open>MediaService: the probe slot that submits buffers\<close>

text \<open>
  \<^verbatim>\<open>MediaService::processBuffer\<close> is the only caller of \<^verbatim>\<open>FFTCalc::calc\<close>; the engine
  and its processor are private to the media service. Of a \<^verbatim>\<open>QAudioBuffer\<close> the slot
  uses the frames, of which \<open>left\<close> holds the left-channel value of each, the channel
  count, the sample type and size, and the value of
  \<^verbatim>\<open>format().durationForBytes(frameCount())\<close>, a number of microseconds computed by Qt
  and taken here as a field. The level meters \<^verbatim>\<open>levelLeft\<close> and \<^verbatim>\<open>levelRight\<close> are left
  out. The samples are finite, so the NaN test of the float branch never fires.
\<close>

datatype SampleType = SignedInt | UnSignedInt | Float | Unknown

record QAudioBuffer =
  left :: "real list"
  channelCount :: int
  sampleType :: SampleType
  sampleSize :: int
  durationForBytes :: int

definition frameCount :: "QAudioBuffer \<Rightarrow> int" where
  "frameCount buffer = int (length (left buffer))"

text \<open>\<^verbatim>\<open>INT_MAX\<close>, \<^verbatim>\<open>SHRT_MAX\<close>, \<^verbatim>\<open>CHAR_MAX\<close>, their unsigned counterparts, or 1.00003.\<close>

definition peakValue :: "QAudioBuffer \<Rightarrow> real option" where
  "peakValue buffer =
     (case sampleType buffer of
        SignedInt \<Rightarrow>
          Some (if sampleSize buffer = 32 then 2147483647
                else if sampleSize buffer = 16 then 32767 else 127)
      | UnSignedInt \<Rightarrow>
          Some (if sampleSize buffer = 32 then 4294967295
                else if sampleSize buffer = 16 then 65535 else 255)
      | Float \<Rightarrow> Some 1.00003
      | Unknown \<Rightarrow> None)"

record MediaService =
  sample :: "real list"
  calculator :: FFTCalc

definition MediaService_init :: MediaService where
  "MediaService_init = \<lparr>sample = [], calculator = FFTCalc_init\<rparr>"

text \<open>
  The slot returns at once for a buffer of fewer than 512 frames, and for one that is not
  stereo; otherwise it normalises the left channel into \<^verbatim>\<open>sample\<close> and calls \<open>calc\<close>.
\<close>

definition MediaService_processBuffer :: "MediaService \<Rightarrow> QAudioBuffer \<Rightarrow> MediaService" where
  "MediaService_processBuffer m buffer =
     (if frameCount buffer < 512 then m
      else if channelCount buffer \<noteq> 2 then m
      else
        let sample0 = resize 0 (nat (frameCount buffer)) (sample m);
            sample1 = (case peakValue buffer of
                         None \<Rightarrow> sample0
                       | Some pk \<Rightarrow> map (\<lambda>i. left buffer ! i / pk) [0..<nat (frameCount buffer)]);
            duration = durationForBytes buffer sdiv 1000
        in m\<lparr>sample := sample1, calculator := calc (calculator m) sample1 duration\<rparr>)"

text \<open>
  The states of the media service: after construction, after a probed buffer, after the
  processor took the oldest queued invocation, after a timeout of the processor's timer,
  and after a signal reached the engine. The display vector \<^verbatim>\<open>m_spectrum\<close> is the
  argument of \<open>calculatedSpectrum_slot\<close> above and is no part of this state.
\<close>

inductive media_reachable :: "MediaService \<Rightarrow> bool" where
  media_constructed: "media_reachable MediaService_init"
| media_probed: "media_reachable m \<Longrightarrow> media_reachable (MediaService_processBuffer m buffer)"
| media_invoked: "media_reachable m \<Longrightarrow> queued (calculator m) = (a, d) # q
     \<Longrightarrow> processBuffer (processor (calculator m)) a d = Inr p
     \<Longrightarrow> media_reachable (m\<lparr>calculator := (calculator m)\<lparr>processor := p, queued := q\<rparr>\<rparr>)"
| media_timeout: "media_reachable m \<Longrightarrow> timer (processor (calculator m)) \<noteq> None
     \<Longrightarrow> run (processor (calculator m)) = Inr (p, sig)
     \<Longrightarrow> media_reachable (m\<lparr>calculator := (calculator m)\<lparr>processor := p\<rparr>\<rparr>)"
| media_delivered: "media_reachable m
     \<Longrightarrow> media_reachable (m\<lparr>calculator := deliver (calculator m) sig\<rparr>)"

text \<open>Two probed buffers of silence, of 100 and of 512 stereo float frames, one second long.\<close>

definition buffer_100 :: QAudioBuffer where
  "buffer_100 = \<lparr>left = replicate 100 0, channelCount = 2, sampleType = Float,
                   sampleSize = 32, durationForBytes = 1000000\<rparr>"

definition buffer_512 :: QAudioBuffer where
  "buffer_512 = \<lparr>left = replicate 512 0, channelCount = 2, sampleType = Float,
                   sampleSize = 32, durationForBytes = 1000000\<rparr>"

section \<open>Properties\<close>

declare decimate_loop.simps [simp del]

declare fft.simps [simp del]

subsection \<open>The boundary table\<close>

lemma logscale_lower: "1 / 2 \<le> logscale i"
proof -
  have "1 \<le> (256::real) powr (2 * real i / 512)"
    by (rule ge_one_powr_ge_zero) simp_all
  then show ?thesis by (simp add: logscale_def)
qed

lemma logscale_mono: "i \<le> j \<Longrightarrow> logscale i \<le> logscale j"
  by (simp add: logscale_def powr_mono)

lemma logscale_256: "logscale 256 = 255.5"
  by (simp add: logscale_def)

lemma logscale_upper: "i \<le> 256 \<Longrightarrow> logscale i \<le> 255.5"
  using logscale_mono [of i 256] by (simp add: logscale_256)

lemma ceil_logscale_pos: "1 \<le> \<lceil>logscale i\<rceil>"
proof -
  have "0 < logscale i" using logscale_lower [of i] by simp
  then have "0 < \<lceil>logscale i\<rceil>" by (simp add: ceiling_less_iff)
  then show ?thesis by simp
qed

lemma floor_logscale_nonneg: "0 \<le> \<lfloor>logscale i\<rfloor>"
  using logscale_lower [of i] by (simp add: zero_le_floor)

lemma floor_logscale_upper: "i \<le> 256 \<Longrightarrow> \<lfloor>logscale i\<rfloor> \<le> 255"
proof -
  assume "i \<le> 256"
  then have "logscale i < 256" using logscale_upper [of i] by simp
  then have "\<lfloor>logscale i\<rfloor> < 256" by (simp add: floor_less_iff)
  then show ?thesis by simp
qed

lemma bucket_terms_unfold:
  "bucket_terms i =
     (if \<lfloor>logscale (i + 1)\<rfloor> < \<lceil>logscale i\<rceil>
      then [(\<lfloor>logscale (i + 1)\<rfloor>, Part (logscale (i + 1) - logscale i))]
      else (if \<lceil>logscale i\<rceil> > 0
            then [(\<lceil>logscale i\<rceil> - 1, Part (of_int \<lceil>logscale i\<rceil> - logscale i))] else [])
           @ map (\<lambda>k. (k, Whole)) [\<lceil>logscale i\<rceil>..\<lfloor>logscale (i + 1)\<rfloor> - 1]
           @ (if \<lfloor>logscale (i + 1)\<rfloor> < 256
              then [(\<lfloor>logscale (i + 1)\<rfloor>,
                     Part (logscale (i + 1) - of_int \<lfloor>logscale (i + 1)\<rfloor>))] else []))"
  by (simp only: bucket_terms_def Let_def)

lemma bucket_terms_index:
  assumes "i < 256" and "(k, w) \<in> set (bucket_terms i)"
  shows "0 \<le> k \<and> k < 256"
proof -
  define a where "a = \<lceil>logscale i\<rceil>"
  define b where "b = \<lfloor>logscale (i + 1)\<rfloor>"
  have a: "1 \<le> a" unfolding a_def by (rule ceil_logscale_pos)
  have b: "0 \<le> b" "b \<le> 255"
    unfolding b_def using assms(1) by (simp_all only: floor_logscale_nonneg floor_logscale_upper Suc_leI add.commute [of i 1] plus_1_eq_Suc)
  have "k \<in> fst ` set (bucket_terms i)" using assms(2) by force
  then have "k \<in> (if b < a then {b} else {a - 1} \<union> {a..b - 1} \<union> {b})"
    unfolding bucket_terms_unfold a_def [symmetric] b_def [symmetric]
    by (auto split: if_splits)
  then show ?thesis using a b by (auto split: if_splits)
qed

lemma bucket_terms_weight:
  assumes "(k, Part r) \<in> set (bucket_terms i)"
  shows "0 \<le> r"
proof -
  have "0 \<le> logscale (i + 1) - logscale i" using logscale_mono [of i "i + 1"] by simp
  moreover have "0 \<le> of_int \<lceil>logscale i\<rceil> - logscale i" by simp
  moreover have "0 \<le> logscale (i + 1) - of_int \<lfloor>logscale (i + 1)\<rfloor>" by simp
  moreover have "r \<in> {logscale (i + 1) - logscale i, of_int \<lceil>logscale i\<rceil> - logscale i,
      logscale (i + 1) - of_int \<lfloor>logscale (i + 1)\<rfloor>}"
    using assms unfolding bucket_terms_unfold by (auto split: if_splits)
  ultimately show ?thesis by auto
qed

lemma rd_amplitude_frame:
  assumes "0 \<le> k" and "k < 256" and "256 \<le> length mags"
  shows "rd (amplitude_frame mags res) k = Inr (amplitude (mags ! nat k))"
proof -
  have "nat k < 256" using assms by simp
  then show ?thesis
    using assms by (simp add: rd_def amplitude_frame_def nth_append)
qed

lemma logscale_0: "logscale 0 = 1 / 2"
  by (simp add: logscale_def)

lemma logscale_1_bounds: "1 / 2 \<le> logscale 1 \<and> logscale 1 < 1"
proof -
  have "(256::real) powr (2 * real 1 / 512) = (2 ^ 8) powr (1 / 256)" by simp
  also have "\<dots> = 2 powr (8 * (1 / 256))"
    by (simp only: powr_powr powr_realpow [symmetric] zero_less_numeral of_nat_numeral)
  also have "\<dots> = 2 powr (1 / 32)" by simp
  finally have e: "(256::real) powr (2 * real 1 / 512) = 2 powr (1 / 32)" .
  have "(2::real) < (3 / 2) ^ 32" by (simp add: power_divide)
  then have "(2::real) powr (1 / 32) < ((3 / 2) ^ 32) powr (1 / 32)"
    by (intro powr_less_mono2) simp_all
  also have "((3 / 2 :: real) ^ 32) powr (1 / 32) = (3 / 2) powr (32 * (1 / 32))"
    by (simp only: powr_powr powr_realpow [symmetric] divide_pos_pos zero_less_numeral of_nat_numeral)
  also have "\<dots> = 3 / 2" by simp
  finally have "(2::real) powr (1 / 32) < 3 / 2" .
  then show ?thesis using logscale_lower [of 1] e by (simp add: logscale_def)
qed

lemma bucket_terms_0: "bucket_terms 0 = [(0, Part (logscale 1 - logscale 0))]"
proof -
  have "\<lfloor>logscale 1\<rfloor> = 0" using logscale_1_bounds by (simp add: floor_eq_iff)
  moreover have "\<lceil>logscale 0\<rceil> = 1" by (simp add: logscale_0 ceiling_eq_iff)
  ultimately show ?thesis by (simp add: bucket_terms_unfold)
qed

subsection \<open>Shaping: every value is a finite number in the unit interval\<close>

lemma amplitude_cases:
  "amplitude NaN = Fin 0" "amplitude NInf = Fin 0" "amplitude PInf = Fin 1"
  "amplitude (Fin x) = Fin (min 1 (max 0 (x / 100)))"
  by (auto simp: amplitude_def qMax_def qMin_def Let_def)

lemma amplitude_unit: "in_unit (amplitude m)"
  by (cases m) (auto simp: amplitude_cases)

text \<open>
  Both comparisons of \<^verbatim>\<open>CLAMP\<close> are false on a NaN, so the macro alone would hand a NaN
  through; every other value ends in \<open>[0,1]\<close>. The lemmas below show that the value it
  receives is never a NaN.
\<close>

lemma CLAMP_NaN: "CLAMP NaN (Fin 0) (Fin 1) = NaN"
  by (simp add: CLAMP_def)

lemma CLAMP_unit: "v \<noteq> NaN \<Longrightarrow> in_unit (CLAMP v (Fin 0) (Fin 1))"
  by (cases v) (auto simp: CLAMP_def)

lemma sum_terms_nonneg:
  assumes "\<And>k w. (k, w) \<in> set ts \<Longrightarrow> \<exists>v. rd cf k = Inr v \<and> in_unit v"
    and "\<And>k r. (k, Part r) \<in> set ts \<Longrightarrow> 0 \<le> r"
    and "0 \<le> s"
  shows "\<exists>s'. sum_terms cf (Fin s) ts = Inr (Fin s') \<and> 0 \<le> s'"
  using assms
proof (induction ts arbitrary: s)
  case Nil
  then show ?case by simp
next
  case (Cons t ts)
  obtain k w where t: "t = (k, w)" by (cases t)
  obtain v where v: "rd cf k = Inr v" "in_unit v"
    using Cons.prems(1) [of k w] t by auto
  obtain x where x: "v = Fin x" "0 \<le> x" using v(2) by (cases v) auto
  have "\<exists>y. add_term cf (Fin s) t = Inr (Fin y) \<and> 0 \<le> y"
  proof (cases w)
    case Whole
    then show ?thesis using t v x Cons.prems(3) by simp
  next
    case (Part r)
    then have "0 \<le> r" using Cons.prems(2) [of k r] t by simp
    then show ?thesis using Part t v x Cons.prems(3) by simp
  qed
  then obtain y where y: "add_term cf (Fin s) t = Inr (Fin y)" "0 \<le> y" by blast
  have "\<exists>s'. sum_terms cf (Fin y) ts = Inr (Fin s') \<and> 0 \<le> s'"
    using Cons.prems(1,2) y(2) by (intro Cons.IH) auto
  then show ?case using y by simp
qed

lemma bucket_sum_nonneg:
  assumes "i < 256" and "256 \<le> length mags"
  shows "\<exists>s. sum_terms (amplitude_frame mags res) (Fin 0) (bucket_terms i) = Inr (Fin s) \<and> 0 \<le> s"
proof (rule sum_terms_nonneg)
  fix k w assume kw: "(k, w) \<in> set (bucket_terms i)"
  then have "0 \<le> k \<and> k < 256" using assms(1) by (rule bucket_terms_index [rotated])
  then have "rd (amplitude_frame mags res) k = Inr (amplitude (mags ! nat k))"
    using assms(2) by (simp add: rd_amplitude_frame)
  then show "\<exists>v. rd (amplitude_frame mags res) k = Inr v \<and> in_unit v"
    by (simp add: amplitude_unit)
next
  fix k r assume "(k, Part r) \<in> set (bucket_terms i)"
  then show "0 \<le> r" by (rule bucket_terms_weight)
qed simp

lemma bucket_val_not_nan:
  assumes "i < 256" and "256 \<le> length mags"
  shows "\<exists>v. bucket_val (amplitude_frame mags res) i = Inr v \<and> (v = NInf \<or> is_finite v)"
proof -
  obtain s where s: "sum_terms (amplitude_frame mags res) (Fin 0) (bucket_terms i) = Inr (Fin s)"
    "0 \<le> s" using bucket_sum_nonneg [OF assms] by blast
  show ?thesis using s by (simp add: bucket_val_def Let_def)
qed

lemma bucket_unit:
  assumes "i < 256" and "256 \<le> length mags"
  shows "\<exists>v. bucket (amplitude_frame mags res) i = Inr v \<and> in_unit v"
proof -
  obtain v where v: "bucket_val (amplitude_frame mags res) i = Inr v" "v = NInf \<or> is_finite v"
    using bucket_val_not_nan [OF assms] by blast
  then have "v \<noteq> NaN" by auto
  then show ?thesis using v(1) by (simp add: bucket_def CLAMP_unit)
qed

lemma linear_unit:
  assumes "i < 256" and "256 \<le> length mags"
  shows "\<exists>v. linear (amplitude_frame mags res) i = Inr v \<and> in_unit v"
proof -
  have rd: "rd (amplitude_frame mags res) (int i) = Inr (amplitude (mags ! i))"
    using assms rd_amplitude_frame [of "int i" mags res] by simp
  obtain x where x: "amplitude (mags ! i) = Fin x" "0 \<le> x"
    using amplitude_unit [of "mags ! i"] by (cases "amplitude (mags ! i)") auto
  show ?thesis using rd x by (simp add: linear_def CLAMP_unit)
qed

lemma collect_all:
  assumes "\<And>i. i \<in> set is \<Longrightarrow> \<exists>v. f i = Inr v \<and> P v"
  shows "\<exists>vs. collect f is = Inr vs \<and> length vs = length is \<and> (\<forall>v \<in> set vs. P v)"
  using assms
proof (induction "is")
  case Nil
  then show ?case by simp
next
  case (Cons i "is")
  obtain v where v: "f i = Inr v" "P v" using Cons.prems [of i] by auto
  obtain vs where vs: "collect f is = Inr vs" "length vs = length is" "\<forall>v \<in> set vs. P v"
    using Cons.IH Cons.prems by auto
  show ?case using v vs by simp
qed

lemma shaping_unit:
  assumes "256 \<le> length mags"
  shows "\<exists>sp. shaping c mags res = Inr sp \<and> length sp = 256 \<and> (\<forall>v \<in> set sp. in_unit v)"
proof (cases c)
  case True
  have "\<exists>vs. collect (bucket (amplitude_frame mags res)) [0..<256] = Inr vs
          \<and> length vs = length [0..<256] \<and> (\<forall>v \<in> set vs. in_unit v)"
    by (rule collect_all) (use assms in \<open>auto intro: bucket_unit\<close>)
  then show ?thesis using True by (simp add: shaping_def)
next
  case False
  have "\<exists>vs. collect (linear (amplitude_frame mags res)) [0..<256] = Inr vs
          \<and> length vs = length [0..<256] \<and> (\<forall>v \<in> set vs. in_unit v)"
    by (rule collect_all) (use assms in \<open>auto intro: linear_unit\<close>)
  then show ?thesis using False by (simp add: shaping_def)
qed

lemma length_butterfly_step [simp]: "length (butterfly_step es os x k) = length x"
  by (simp add: butterfly_step_def Let_def)

lemma length_foldl_butterfly: "length (foldl (butterfly_step es os) x ks) = length x"
  by (induction ks arbitrary: x) simp_all

lemma length_butterfly [simp]: "length (butterfly x es os) = length x"
  by (simp add: butterfly_def length_foldl_butterfly)

lemma length_fft [simp]: "length (fft x) = length x"
  by (subst fft.simps) simp

lemma length_windowed_frame [simp]: "length (windowed_frame a p) = 512"
  by (simp add: windowed_frame_def)

lemma run_frame:
  assumes "pass s = Some p" and "numberOfChunks s = Some n" and "p \<noteq> n" and "0 \<le> p"
    and "p * 512 + 512 \<le> int (length (array s))"
  shows "\<exists>sp. run s = Inr (s\<lparr>spectrum := sp, pass := Some (p + 1)\<rparr>, Some (CalculatedSpectrum sp))
           \<and> length sp = 256 \<and> (\<forall>v \<in> set sp. in_unit v)"
proof -
  let ?X = "fft (windowed_frame (array s) (nat p))"
  obtain sp where sp: "shaping (compressed s) (map (\<lambda>z. Fin (cmod z)) ?X) (map (\<lambda>z. Fin (Re z)) ?X) = Inr sp"
    "length sp = 256" "\<forall>v \<in> set sp. in_unit v"
    using shaping_unit [of "map (\<lambda>z. Fin (cmod z)) ?X" "compressed s" "map (\<lambda>z. Fin (Re z)) ?X"]
    by auto
  have "512 \<le> length (array s)" using assms(4,5) by linarith
  then show ?thesis using assms sp by (auto simp: run_def Let_def)
qed

lemma run_emits_spectrum:
  assumes "run s = Inr (s', Some (CalculatedSpectrum sp))"
  shows "\<exists>p n. pass s = Some p \<and> numberOfChunks s = Some n \<and> p \<noteq> n \<and> 0 \<le> p
           \<and> p * 512 + 512 \<le> int (length (array s))
           \<and> s' = s\<lparr>spectrum := sp, pass := Some (p + 1)\<rparr>"
  using assms
  by (auto simp: run_def Let_def split: option.splits if_splits sum.splits)

subsection \<open>The scheduler: invariant of the reachable states\<close>

lemma processBuffer_Inr:
  assumes "processBuffer s b d = Inr s'"
  shows "\<exists>n. n \<noteq> 0 \<and> numberOfChunks s' = Some n \<and> pass s' = Some 0 \<and> array s' = b
           \<and> timer s' = Some (max 1 (d sdiv n))
           \<and> (if length (array s) \<noteq> length b then n = int (length b) sdiv 512
               else numberOfChunks s = Some n)"
  using assms
  by (auto simp: processBuffer_def Let_def max_def split: if_splits option.splits)

lemma sdiv_512: "int m sdiv 512 = int m div 512"
  by (simp add: signed_divide_int_def sgn_if)

lemma run_Inr:
  assumes "run s = Inr (s', sig)"
  shows "\<exists>p n. pass s = Some p \<and> numberOfChunks s = Some n \<and>
           (if p = n then s' = s \<and> sig = Some AllDone
            else if length (array s) < 512 then s' = s \<and> sig = None
            else 0 \<le> p \<and> p * 512 + 512 \<le> int (length (array s))
                 \<and> (\<exists>sp. s' = s\<lparr>spectrum := sp, pass := Some (p + 1)\<rparr> \<and> sig = Some (CalculatedSpectrum sp)))"
  using assms
  by (auto simp: run_def Let_def split: option.splits if_splits sum.splits)

lemma reachable_invariant:
  assumes "reachable s"
  shows "timer s \<noteq> None \<and>
         ((numberOfChunks s = None \<and> array s = []) \<or>
          (\<exists>n p. numberOfChunks s = Some n \<and> pass s = Some p
             \<and> n = int (length (array s)) div 512 \<and> 1 \<le> n \<and> 0 \<le> p \<and> p \<le> n))"
  using assms
proof (induction rule: reachable.induct)
  case init
  show ?case by (simp add: BufferProcessor_init_def)
next
  case (submit s b d s')
  obtain n where n: "n \<noteq> 0" "numberOfChunks s' = Some n" "pass s' = Some 0" "array s' = b"
    "timer s' = Some (max 1 (d sdiv n))"
    "if length (array s) \<noteq> length b then n = int (length b) sdiv 512
     else numberOfChunks s = Some n"
    using processBuffer_Inr [OF submit.hyps(2)] by blast
  have "n = int (length b) div 512"
  proof (cases "length (array s) \<noteq> length b")
    case True
    then show ?thesis using n(6) by (simp add: sdiv_512)
  next
    case False
    then have "numberOfChunks s = Some n" using n(6) by simp
    then show ?thesis using submit.IH False by auto
  qed
  moreover from this have "0 \<le> n" by simp
  ultimately show ?case using n by auto
next
  case (tick s s' sig)
  obtain p n where pn: "pass s = Some p" "numberOfChunks s = Some n"
    "if p = n then s' = s \<and> sig = Some AllDone
     else if length (array s) < 512 then s' = s \<and> sig = None
     else 0 \<le> p \<and> p * 512 + 512 \<le> int (length (array s))
          \<and> (\<exists>sp. s' = s\<lparr>spectrum := sp, pass := Some (p + 1)\<rparr> \<and> sig = Some (CalculatedSpectrum sp))"
    using run_Inr [OF tick.hyps(3)] by blast
  have inv: "timer s \<noteq> None" "n = int (length (array s)) div 512" "1 \<le> n" "0 \<le> p" "p \<le> n"
    using tick.IH pn by auto
  show ?case
  proof (cases "p = n \<or> length (array s) < 512")
    case True
    then have "s' = s" using pn(3) by (auto split: if_splits)
    then show ?thesis using tick.IH by simp
  next
    case False
    then obtain sp where "s' = s\<lparr>spectrum := sp, pass := Some (p + 1)\<rparr>"
      using pn(3) by (auto split: if_splits)
    then show ?thesis using inv pn False by auto
  qed
qed

lemma run_done:
  assumes "pass s = Some n" and "numberOfChunks s = Some n"
  shows "run s = Inr (s, Some AllDone)"
  using assms by (simp add: run_def)

lemma ticks_done:
  assumes "pass s = Some n" and "numberOfChunks s = Some n" and "timer s \<noteq> None"
  shows "ticks k s = Inr (s, replicate k AllDone)"
  using assms by (induction k) (auto simp: run_done)

lemma ticks_frames:
  assumes "pass s = Some p" and "numberOfChunks s = Some n" and "0 \<le> p" and "p \<le> n"
    and "n * 512 \<le> int (length (array s))" and "timer s \<noteq> None" and "m = nat (n - p)"
  shows "\<exists>s' sps. ticks (m + k) s = Inr (s', map CalculatedSpectrum sps @ replicate k AllDone)
           \<and> length sps = m \<and> pass s' = Some n \<and> numberOfChunks s' = Some n \<and> timer s' = timer s"
  using assms
proof (induction m arbitrary: s p)
  case 0
  then have "p = n" by simp
  then have "ticks k s = Inr (s, replicate k AllDone)" using 0 by (simp add: ticks_done)
  then show ?case using 0 \<open>p = n\<close> by auto
next
  case (Suc m)
  then have lt: "p < n" by linarith
  then have "p * 512 + 512 \<le> int (length (array s))" using Suc.prems(5) by linarith
  then obtain sp where sp: "run s = Inr (s\<lparr>spectrum := sp, pass := Some (p + 1)\<rparr>, Some (CalculatedSpectrum sp))"
    using run_frame [of s p n] Suc.prems lt by auto
  let ?s1 = "s\<lparr>spectrum := sp, pass := Some (p + 1)\<rparr>"
  have "\<exists>s' sps. ticks (m + k) ?s1 = Inr (s', map CalculatedSpectrum sps @ replicate k AllDone)
           \<and> length sps = m \<and> pass s' = Some n \<and> numberOfChunks s' = Some n \<and> timer s' = timer ?s1"
    using Suc.prems lt by (intro Suc.IH [of ?s1 "p + 1"]) auto
  then obtain s' sps where s': "ticks (m + k) ?s1 = Inr (s', map CalculatedSpectrum sps @ replicate k AllDone)"
    "length sps = m" "pass s' = Some n" "numberOfChunks s' = Some n" "timer s' = timer s" by auto
  obtain ms where ms: "timer s = Some ms" using Suc.prems(6) by auto
  have "ticks (Suc m + k) s = Inr (s', map CalculatedSpectrum (sp # sps) @ replicate k AllDone)"
    using sp s'(1) ms by simp
  then show ?case using s' by (intro exI [of _ s'] exI [of _ "sp # sps"]) simp
qed

lemma processBuffer_accepts:
  assumes "reachable s" and "512 \<le> length b"
  shows "\<exists>s' n. processBuffer s b d = Inr s' \<and> numberOfChunks s' = Some n \<and> 1 \<le> n"
proof -
  have pos: "1 \<le> int (length b) div 512" using assms(2) by simp
  have "\<exists>s'. processBuffer s b d = Inr s'"
  proof (cases "length (array s) \<noteq> length b")
    case True
    then show ?thesis using pos by (simp add: processBuffer_def Let_def sdiv_512)
  next
    case False
    then have "array s \<noteq> []" using assms(2) by auto
    then obtain n where "numberOfChunks s = Some n" "1 \<le> n"
      using reachable_invariant [OF assms(1)] by auto
    then show ?thesis using False by (simp add: processBuffer_def Let_def)
  qed
  then obtain s' where s': "processBuffer s b d = Inr s'" by blast
  have r: "reachable s'" using assms(1) s' by (rule reachable.submit)
  obtain n where n: "numberOfChunks s' = Some n" using processBuffer_Inr [OF s'] by blast
  have "1 \<le> n" using reachable_invariant [OF r] n by auto
  then show ?thesis using s' n by blast
qed

lemma reachable_run_in_bounds:
  assumes "reachable s"
  shows "run s \<noteq> Inl OutOfBounds"
proof (cases "numberOfChunks s")
  case None
  then show ?thesis by (simp add: run_def split: option.splits)
next
  case (Some n)
  then obtain p where p: "pass s = Some p" "n = int (length (array s)) div 512" "0 \<le> p" "p \<le> n"
    using reachable_invariant [OF assms] by auto
  show ?thesis
  proof (cases "p = n")
    case True
    then show ?thesis using Some p by (simp add: run_done)
  next
    case False
    then have "p * 512 + 512 \<le> int (length (array s))" using p by linarith
    then obtain sp where "run s = Inr (s\<lparr>spectrum := sp, pass := Some (p + 1)\<rparr>, Some (CalculatedSpectrum sp))"
      using run_frame [OF p(1) Some False p(3)] by blast
    then show ?thesis by simp
  qed
qed

lemma completions_spectra: "completions (map CalculatedSpectrum sps @ replicate k AllDone) = k"
  by (induction sps) (simp_all add: completions_def)

lemma submit_512:
  "processBuffer BufferProcessor_init (replicate 512 0) 1000
     = Inr (BufferProcessor_init\<lparr>numberOfChunks := Some 1, array := replicate 512 0,
              interval := Some 1000, pass := Some 0, timer := Some 1000\<rparr>)"
  by (simp add: processBuffer_def BufferProcessor_init_def signed_divide_int_def resize_def Let_def)

lemma submit_1535:
  "processBuffer BufferProcessor_init (replicate 1535 0) 300
     = Inr (BufferProcessor_init\<lparr>numberOfChunks := Some 2, array := replicate 1535 0,
              interval := Some 150, pass := Some 0, timer := Some 150\<rparr>)"
  by (simp add: processBuffer_def BufferProcessor_init_def signed_divide_int_def resize_def Let_def)

subsection \<open>Submission: chunk count and tick interval\<close>

lemma short_buffer_divides_by_zero:
  assumes "reachable s" and "0 < length b" and "length b < 512"
  shows "processBuffer s b d = Inl DivisionByZero"
proof -
  have "array s = [] \<or> 512 \<le> length (array s)"
    using reachable_invariant [OF assms(1)] by auto
  then have "length (array s) \<noteq> length b" using assms(2,3) by auto
  then show ?thesis using assms(3) by (simp add: processBuffer_def Let_def sdiv_512)
qed

text \<open>
  C1, as stated: a buffer with fewer than 512 samples short-circuits the interval
  computation. \<open>processBuffer\<close> has no such guard: given a buffer of 100 samples, a fresh
  processor sets \<open>numberOfChunks\<close> to 0 and then evaluates \<open>duration / numberOfChunks\<close>.
\<close>

theorem processBuffer_short_buffer_divides_by_zero:
  "processBuffer BufferProcessor_init (replicate 100 0) 1000 = Inl DivisionByZero"
  by (simp add: processBuffer_def BufferProcessor_init_def signed_divide_int_def)

lemma length_submitted_sample:
  assumes "\<not> frameCount buffer < 512"
  shows "512 \<le> length (case peakValue buffer of
                         None \<Rightarrow> resize 0 (nat (frameCount buffer)) old
                       | Some pk \<Rightarrow> map (\<lambda>i. left buffer ! i / pk) [0..<nat (frameCount buffer)])"
  using assms by (auto simp: resize_def frameCount_def split: option.splits)

lemma media_invariant:
  assumes "media_reachable m"
  shows "reachable (processor (calculator m))
       \<and> (\<forall>(a, d) \<in> set (queued (calculator m)). 512 \<le> length a)"
  using assms
proof (induction rule: media_reachable.induct)
  case media_constructed
  show ?case by (simp add: MediaService_init_def FFTCalc_init_def reachable.init)
next
  case (media_probed m buffer)
  show ?case
  proof (cases "frameCount buffer < 512 \<or> channelCount buffer \<noteq> 2")
    case True
    then show ?thesis using media_probed.IH by (auto simp: MediaService_processBuffer_def)
  next
    case False
    then have "\<not> frameCount buffer < 512" by simp
    from length_submitted_sample [OF this, of "sample m"] False media_probed.IH
    show ?thesis by (auto simp: MediaService_processBuffer_def Let_def calc_def)
  qed
next
  case (media_invoked m a d q p)
  then show ?case by (auto intro: reachable.submit)
next
  case (media_timeout m p sig)
  then show ?case by (auto intro: reachable.tick)
next
  case (media_delivered m sig)
  then show ?case by (cases sig) (simp_all add: freeCalc_def)
qed

lemma probe_512:
  "queued (calculator (MediaService_processBuffer MediaService_init buffer_512))
     = [(map (\<lambda>i. replicate 512 0 ! i / 1.00003) [0..<512], 1000)]"
  by (simp add: MediaService_processBuffer_def MediaService_init_def FFTCalc_init_def
      buffer_512_def frameCount_def peakValue_def calc_def Let_def signed_divide_int_def
      del: upt.simps replicate.simps)

text \<open>
  C1, amended: the guard stands at the caller. The probe slot of the media service
  returns without a submission for every buffer of fewer than 512 frames, so every buffer
  that waits in the queue of the engine has at least 512 samples, and when the processor
  takes it the submission is accepted with \<open>numberOfChunks \<ge> 1\<close>: in the program the
  quotient is never evaluated with \<open>numberOfChunks = 0\<close>.
\<close>

theorem short_buffers_stopped_before_submission:
  "(frameCount buffer < 512 \<longrightarrow> MediaService_processBuffer m buffer = m)
   \<and> (media_reachable m \<longrightarrow> queued (calculator m) = (a, d) # q \<longrightarrow>
        512 \<le> length a
        \<and> (\<exists>p n. processBuffer (processor (calculator m)) a d = Inr p
               \<and> numberOfChunks p = Some n \<and> 1 \<le> n))"
proof (intro conjI impI)
  assume "frameCount buffer < 512"
  then show "MediaService_processBuffer m buffer = m" by (simp add: MediaService_processBuffer_def)
next
  assume r: "media_reachable m" and qd: "queued (calculator m) = (a, d) # q"
  have inv: "reachable (processor (calculator m))" "512 \<le> length a"
    using media_invariant [OF r] qd by auto
  show "512 \<le> length a" by (rule inv(2))
  show "\<exists>p n. processBuffer (processor (calculator m)) a d = Inr p
               \<and> numberOfChunks p = Some n \<and> 1 \<le> n"
    using inv by (rule processBuffer_accepts)
qed

theorem short_buffers_stopped_before_submission_witness:
  "MediaService_processBuffer MediaService_init buffer_100 = MediaService_init
   \<and> media_reachable (MediaService_processBuffer MediaService_init buffer_512)
   \<and> (\<exists>a d p n. queued (calculator (MediaService_processBuffer MediaService_init buffer_512)) = [(a, d)]
         \<and> length a = 512
         \<and> processBuffer (processor (calculator (MediaService_processBuffer MediaService_init buffer_512))) a d = Inr p
         \<and> numberOfChunks p = Some n \<and> 1 \<le> n)"
proof -
  let ?m = "MediaService_processBuffer MediaService_init buffer_512"
  let ?a = "map (\<lambda>i. replicate 512 (0::real) ! i / 1.00003) [0..<512]"
  have small: "frameCount buffer_100 < 512" by (simp add: frameCount_def buffer_100_def)
  have r: "media_reachable ?m" by (rule media_probed [OF media_constructed])
  have "\<exists>p n. processBuffer (processor (calculator ?m)) ?a 1000 = Inr p
               \<and> numberOfChunks p = Some n \<and> 1 \<le> n"
    using short_buffers_stopped_before_submission [of buffer_512 ?m ?a 1000 "[]"] r probe_512 by blast
  moreover have "MediaService_processBuffer MediaService_init buffer_100 = MediaService_init"
    using short_buffers_stopped_before_submission [of buffer_100 MediaService_init] small by blast
  moreover have "length ?a = 512" by simp
  ultimately show ?thesis using r probe_512 by blast
qed

text \<open>
  C7. After a submission that left \<open>numberOfChunks = n\<close> with \<open>n \<ge> 1\<close>, the interval
  stored and handed to the timer is \<open>max 1 (duration / n)\<close> with the truncating integer
  division of C++, and is therefore at least 1.
\<close>

theorem interval_is_max_1_quotient:
  assumes "processBuffer s b d = Inr s'" and "numberOfChunks s' = Some n" and "1 \<le> n"
  shows "interval s' = Some (max 1 (d sdiv n)) \<and> timer s' = Some (max 1 (d sdiv n))
         \<and> (\<exists>i. interval s' = Some i \<and> 1 \<le> i)"
  using assms
  by (auto simp: processBuffer_def Let_def max_def split: if_splits option.splits)

theorem interval_is_max_1_quotient_witness:
  "\<exists>s'. processBuffer BufferProcessor_init (replicate 1535 0) 300 = Inr s'
     \<and> numberOfChunks s' = Some 2 \<and> interval s' = Some 150 \<and> timer s' = Some 150"
proof -
  let ?s = "BufferProcessor_init\<lparr>numberOfChunks := Some 2, array := replicate 1535 0,
              interval := Some 150, pass := Some 0, timer := Some 150\<rparr>"
  have h: "processBuffer BufferProcessor_init (replicate 1535 0) 300 = Inr ?s"
    by (simp add: processBuffer_def BufferProcessor_init_def signed_divide_int_def
        resize_def Let_def)
  have n: "numberOfChunks ?s = Some 2" by simp
  from interval_is_max_1_quotient [OF h n] h show ?thesis
    by (simp add: signed_divide_int_def)
qed

text \<open>
  C6. From every reachable state a buffer of at least 512 samples is accepted, and after
  every accepted submission of \<open>b\<close> the chunk count is \<open>length b div 512\<close>, so
  \<open>numberOfChunks * 512 \<le> length b\<close>, and \<open>pass\<close> is 0. A tick that emits a spectrum
  processed the frame at offset \<open>pass * 512\<close> with \<open>0 \<le> pass < numberOfChunks\<close>, and that
  frame lies wholly inside the buffer: a trailing partial window is never processed, and
  no tick of a reachable state reads outside the buffer.
\<close>

theorem chunk_count_and_full_windows:
  assumes "reachable s"
  shows "(512 \<le> length b \<longrightarrow> (\<exists>s'. processBuffer s b d = Inr s'))
       \<and> (\<forall>s'. processBuffer s b d = Inr s' \<longrightarrow>
            numberOfChunks s' = Some (int (length b) div 512)
            \<and> (int (length b) div 512) * 512 \<le> int (length b)
            \<and> pass s' = Some 0 \<and> array s' = b)
       \<and> (\<forall>s' sp. run s = Inr (s', Some (CalculatedSpectrum sp)) \<longrightarrow>
            (\<exists>p n. pass s = Some p \<and> numberOfChunks s = Some n
               \<and> n = int (length (array s)) div 512 \<and> 0 \<le> p \<and> p < n
               \<and> p * 512 + 512 \<le> int (length (array s)) \<and> pass s' = Some (p + 1)))
       \<and> run s \<noteq> Inl OutOfBounds"
proof (intro conjI allI impI)
  show "run s \<noteq> Inl OutOfBounds" using assms by (rule reachable_run_in_bounds)
next
  assume len: "512 \<le> length b"
  then have pos: "1 \<le> int (length b) div 512" by simp
  show "\<exists>s'. processBuffer s b d = Inr s'"
  proof (cases "length (array s) \<noteq> length b")
    case True
    then show ?thesis using pos by (simp add: processBuffer_def Let_def sdiv_512)
  next
    case False
    then have "array s \<noteq> []" using len by auto
    then obtain n where "numberOfChunks s = Some n" "1 \<le> n"
      using reachable_invariant [OF assms] by auto
    then show ?thesis using False by (simp add: processBuffer_def Let_def)
  qed
next
  fix s' assume ok: "processBuffer s b d = Inr s'"
  have r: "reachable s'" using assms ok by (rule reachable.submit)
  obtain n where n: "numberOfChunks s' = Some n" "pass s' = Some 0" "array s' = b"
    using processBuffer_Inr [OF ok] by blast
  have "n = int (length b) div 512" using reachable_invariant [OF r] n by auto
  then show "numberOfChunks s' = Some (int (length b) div 512)" using n by simp
  show "int (length b) div 512 * 512 \<le> int (length b)" by simp
  show "pass s' = Some 0" by (rule n(2))
  show "array s' = b" by (rule n(3))
next
  fix s' sp assume r: "run s = Inr (s', Some (CalculatedSpectrum sp))"
  obtain p n where pn: "pass s = Some p" "numberOfChunks s = Some n" "p \<noteq> n" "0 \<le> p"
    "p * 512 + 512 \<le> int (length (array s))" "s' = s\<lparr>spectrum := sp, pass := Some (p + 1)\<rparr>"
    using run_emits_spectrum [OF r] by blast
  have "n = int (length (array s)) div 512" "p \<le> n"
    using reachable_invariant [OF assms] pn by auto
  then show "\<exists>p n. pass s = Some p \<and> numberOfChunks s = Some n
               \<and> n = int (length (array s)) div 512 \<and> 0 \<le> p \<and> p < n
               \<and> p * 512 + 512 \<le> int (length (array s)) \<and> pass s' = Some (p + 1)"
    using pn by auto
qed

theorem chunk_count_and_full_windows_witness:
  "reachable BufferProcessor_init \<and> 512 \<le> length (replicate 1535 (0::real)) \<and>
   (\<exists>s0. processBuffer BufferProcessor_init (replicate 1535 0) 300 = Inr s0
      \<and> numberOfChunks s0 = Some 2 \<and> reachable s0
      \<and> (\<exists>s1 sp. run s0 = Inr (s1, Some (CalculatedSpectrum sp)) \<and> pass s0 = Some 0 \<and> pass s1 = Some 1))"
proof -
  let ?s0 = "BufferProcessor_init\<lparr>numberOfChunks := Some 2, array := replicate 1535 0,
              interval := Some 150, pass := Some 0, timer := Some 150\<rparr>"
  have r0: "reachable ?s0" using reachable.init submit_1535 by (rule reachable.submit)
  have n: "numberOfChunks ?s0 = Some 2"
    using chunk_count_and_full_windows [OF reachable.init, of "replicate 1535 0" 300] submit_1535 by simp
  obtain sp where sp: "run ?s0 = Inr (?s0\<lparr>spectrum := sp, pass := Some (0 + 1)\<rparr>, Some (CalculatedSpectrum sp))"
    using run_frame [of ?s0 0 2] by auto
  have "pass ?s0 = Some 0 \<and> pass (?s0\<lparr>spectrum := sp, pass := Some (0 + 1)\<rparr>) = Some 1"
    using chunk_count_and_full_windows [OF r0, of "replicate 1535 0" 300] sp by simp
  then show ?thesis using reachable.init submit_1535 n r0 sp by auto
qed

subsection \<open>Completion\<close>

text \<open>
  C2, as stated: at \<open>pass = numberOfChunks\<close> the scheduler emits one completion signal and
  stops ticking. It does not stop: a buffer of 512 samples submitted to a fresh processor
  and followed by three ticks yields two completion signals, and the timer is still running
  with its interval of 1000 ms.
\<close>

theorem completion_repeats_while_timer_runs:
  "completions (signals_of (schedule (replicate 512 0) 1000 3)) = 2
   \<and> timer_of (schedule (replicate 512 0) 1000 3) = Some 1000"
proof -
  let ?s0 = "BufferProcessor_init\<lparr>numberOfChunks := Some 1, array := replicate 512 0,
              interval := Some 1000, pass := Some 0, timer := Some 1000\<rparr>"
  have three: "(1::nat) + 2 = 3" by simp
  have "\<exists>s' sps. ticks (1 + 2) ?s0 = Inr (s', map CalculatedSpectrum sps @ replicate 2 AllDone)
           \<and> length sps = 1 \<and> pass s' = Some 1 \<and> numberOfChunks s' = Some 1 \<and> timer s' = timer ?s0"
    by (rule ticks_frames [of ?s0 0 1 1 2]) simp_all
  then obtain s' sps where t: "ticks 3 ?s0 = Inr (s', map CalculatedSpectrum sps @ replicate 2 AllDone)"
    "timer s' = timer ?s0"
    unfolding three by blast
  have "schedule (replicate 512 0) 1000 3 = Inr (s', map CalculatedSpectrum sps @ replicate 2 AllDone)"
    using t(1) by (simp add: schedule_def submit_512 del: ticks.simps)
  then show ?thesis using t(2) by (simp add: completions_spectra del: replicate.simps)
qed

text \<open>
  C2, amended: a tick at \<open>pass = numberOfChunks\<close> emits a completion signal and leaves the
  state, timer included, as it is. After an accepted submission with \<open>n\<close> chunks the first
  \<open>n\<close> ticks emit one spectrum each, and each of the \<open>k\<close> ticks after them emits one more
  completion signal.
\<close>

theorem schedule_ends_with_completion_per_tick:
  assumes "reachable s" and "processBuffer s b d = Inr s0"
  shows "\<exists>n s' sps. numberOfChunks s0 = Some n \<and> 1 \<le> n
           \<and> ticks (nat n + k) s0 = Inr (s', map CalculatedSpectrum sps @ replicate k AllDone)
           \<and> length sps = nat n \<and> timer s' = timer s0 \<and> timer s0 \<noteq> None
           \<and> run s' = Inr (s', Some AllDone)"
proof -
  have r: "reachable s0" using assms by (rule reachable.submit)
  obtain n where n: "numberOfChunks s0 = Some n" "pass s0 = Some 0"
    using processBuffer_Inr [OF assms(2)] by blast
  have inv: "timer s0 \<noteq> None" "n = int (length (array s0)) div 512" "1 \<le> n"
    using reachable_invariant [OF r] n by auto
  have "n * 512 \<le> int (length (array s0))" using inv(2) by simp
  then obtain s' sps where s': "ticks (nat n + k) s0 = Inr (s', map CalculatedSpectrum sps @ replicate k AllDone)"
    "length sps = nat n" "pass s' = Some n" "numberOfChunks s' = Some n" "timer s' = timer s0"
    using ticks_frames [of s0 0 n "nat n" k] n inv by auto
  have "run s' = Inr (s', Some AllDone)" using s' by (simp add: run_done)
  then show ?thesis using n inv s' by auto
qed

theorem schedule_ends_with_completion_per_tick_witness:
  "reachable BufferProcessor_init \<and>
   (\<exists>s0. processBuffer BufferProcessor_init (replicate 512 0) 1000 = Inr s0 \<and>
      (\<exists>s' sps. ticks 3 s0 = Inr (s', map CalculatedSpectrum sps @ replicate 2 AllDone)
          \<and> length sps = 1 \<and> timer s' = Some 1000))"
proof -
  let ?s0 = "BufferProcessor_init\<lparr>numberOfChunks := Some 1, array := replicate 512 0,
              interval := Some 1000, pass := Some 0, timer := Some 1000\<rparr>"
  have three: "nat 1 + 2 = 3" by simp
  have "\<exists>n s' sps. numberOfChunks ?s0 = Some n \<and> 1 \<le> n
           \<and> ticks (nat n + 2) ?s0 = Inr (s', map CalculatedSpectrum sps @ replicate 2 AllDone)
           \<and> length sps = nat n \<and> timer s' = timer ?s0 \<and> timer ?s0 \<noteq> None
           \<and> run s' = Inr (s', Some AllDone)"
    by (rule schedule_ends_with_completion_per_tick [OF reachable.init submit_512])
  then obtain n s' sps where n: "numberOfChunks ?s0 = Some n"
    and t: "ticks (nat n + 2) ?s0 = Inr (s', map CalculatedSpectrum sps @ replicate 2 AllDone)"
      "length sps = nat n" "timer s' = timer ?s0" by blast
  from n have n1: "n = 1" by simp
  have "ticks 3 ?s0 = Inr (s', map CalculatedSpectrum sps @ replicate 2 AllDone)"
    using t(1) unfolding n1 three .
  moreover have "length sps = 1 \<and> timer s' = Some 1000"
    using t(2,3) n1 by simp
  ultimately show ?thesis using reachable.init submit_512 by blast
qed

subsection \<open>The busy flag of the analysis engine\<close>

text \<open>
  C8, as stated: the busy flag is set by every \<open>calc\<close>. It is not: after a submission to a
  fresh engine the flag is still false.
\<close>

theorem calc_does_not_set_busy:
  "\<not> isBusy (calc FFTCalc_init (replicate 512 0) 1000)"
  by (simp add: calc_def FFTCalc_init_def)

lemma engine_never_busy: "engine_reachable f \<Longrightarrow> \<not> isBusy f"
proof (induction rule: engine_reachable.induct)
  case (delivered f sig)
  then show ?case by (cases sig) (simp_all add: freeCalc_def)
qed (simp_all add: FFTCalc_init_def calc_def)

text \<open>
  C8, amended: the busy flag is false after construction, \<open>calc\<close> leaves it as it is, and
  \<open>freeCalc\<close>, the slot that receives the done signal, clears it; the flag is false in
  every state of the engine.
\<close>

theorem busy_flag_only_cleared:
  "isBusy (calc f a d) = isBusy f \<and> isBusy (freeCalc f) = False
     \<and> isBusy (deliver f AllDone) = False \<and> (engine_reachable g \<longrightarrow> \<not> isBusy g)"
  by (simp add: calc_def freeCalc_def engine_never_busy)

theorem busy_flag_only_cleared_witness:
  "engine_reachable (calc FFTCalc_init (replicate 512 0) 1000)
     \<and> isBusy (calc FFTCalc_init (replicate 512 0) 1000) = False"
  using busy_flag_only_cleared [of FFTCalc_init "replicate 512 0" 1000
      "calc FFTCalc_init (replicate 512 0) 1000"]
    engine_reachable.submitted [OF engine_reachable.constructed, of "replicate 512 0" 1000]
  by auto

subsection \<open>Decimation for display\<close>

lemma decimate_loop_13:
  assumes "length sp = 256" and "length m = 20" and "j \<le> 20"
  shows "decimate_loop sp 13 (13 * int j) j m
           = Inr (take j m @ map (\<lambda>t. sp ! (13 * t)) [j..<20])"
  using assms
proof (induction "20 - j" arbitrary: j m)
  case 0
  then have j: "j = 20" by simp
  show ?case using 0 by (subst decimate_loop.simps) (simp add: j)
next
  case (Suc d)
  then have j: "j < 20" by simp
  have lt: "13 * int j < int (length sp)" using j Suc.prems by simp
  have step: "decimate_loop sp 13 (13 * int j) j m
      = decimate_loop sp 13 (13 * int (Suc j)) (Suc j) (m[j := sp ! (13 * j)])"
    using lt j Suc.prems by (subst decimate_loop.simps) (simp add: nat_mult_distrib algebra_simps)
  have ih: "decimate_loop sp 13 (13 * int (Suc j)) (Suc j) (m[j := sp ! (13 * j)])
      = Inr (take (Suc j) (m[j := sp ! (13 * j)]) @ map (\<lambda>t. sp ! (13 * t)) [Suc j..<20])"
    using Suc.hyps(2) Suc.prems j by (intro Suc.hyps(1)) auto
  have "take (Suc j) (m[j := sp ! (13 * j)]) = take j m @ [sp ! (13 * j)]"
    using j Suc.prems by (simp add: take_Suc_conv_app_nth)
  moreover have "[j..<20] = j # [Suc j..<20]" using j by (simp add: upt_conv_Cons)
  ultimately show ?case using step ih by simp
qed

text \<open>
  C9. For a spectrum of 256 elements the slot of the media service steps by
  \<open>256 / 19 = 13\<close> and stores exactly 20 display values, the spectrum elements
  \<open>0, 13, 26, ..., 247\<close>, whatever the display vector held before.
\<close>

theorem decimation_picks_every_13th:
  assumes "length sp = 256"
  shows "calculatedSpectrum_slot m_spectrum sp = Inr (map (\<lambda>j. sp ! (13 * j)) [0..<20])"
proof -
  have "decimate_loop sp 13 (13 * int 0) 0 (resize (Fin 0) 20 m_spectrum)
        = Inr (take 0 (resize (Fin 0) 20 m_spectrum) @ map (\<lambda>t. sp ! (13 * t)) [0..<20])"
    using assms by (intro decimate_loop_13) (auto simp: resize_def)
  moreover have "int (length sp) sdiv (20 - 1) = 13"
    using assms by (simp add: signed_divide_int_def)
  ultimately show ?thesis
    by (simp add: calculatedSpectrum_slot_def Let_def)
qed

theorem decimation_picks_every_13th_witness:
  "length (map (\<lambda>i. Fin (real i)) [0..<256]) = 256 \<and>
   calculatedSpectrum_slot [] (map (\<lambda>i. Fin (real i)) [0..<256])
     = Inr (map (\<lambda>j. Fin (real (13 * j))) [0..<20])"
  using decimation_picks_every_13th [of "map (\<lambda>i. Fin (real i)) [0..<256]" "[]"] by simp

subsection \<open>Reads of the compressed mode\<close>

text \<open>
  C10. In compressed mode every index read from \<open>complexFrame\<close> for a bucket \<open>i < 256\<close>
  (\<open>b\<close> when \<open>b < a\<close>; otherwise \<open>a - 1\<close>, the range \<open>a .. b - 1\<close> and \<open>b\<close>) lies in
  \<open>[0, 256)\<close>: the read is in bounds and returns the clamped amplitude written there by
  the amplitude loop, and the bucket computation does not fail.
\<close>

theorem compressed_reads_within_amplitudes:
  assumes "i < 256" and "256 \<le> length mags"
  shows "(\<forall>(k, w) \<in> set (bucket_terms i).
            0 \<le> k \<and> k < 256 \<and> rd (amplitude_frame mags res) k = Inr (amplitude (mags ! nat k)))
       \<and> (\<exists>v. bucket (amplitude_frame mags res) i = Inr v)"
proof -
  have "0 \<le> k \<and> k < 256 \<and> rd (amplitude_frame mags res) k = Inr (amplitude (mags ! nat k))"
    if "(k, w) \<in> set (bucket_terms i)" for k w
    using bucket_terms_index [OF assms(1) that] assms(2) by (simp add: rd_amplitude_frame)
  moreover have "\<exists>v. bucket (amplitude_frame mags res) i = Inr v"
    using bucket_unit [OF assms] by blast
  ultimately show ?thesis by auto
qed

theorem compressed_reads_within_amplitudes_witness:
  "(0::nat) < 256 \<and> 256 \<le> length (replicate 512 (Fin 50)) \<and>
   bucket_terms 0 = [(0, Part (logscale 1 - logscale 0))] \<and>
   rd (amplitude_frame (replicate 512 (Fin 50)) []) 0 = Inr (Fin (1 / 2)) \<and>
   (\<exists>v. bucket (amplitude_frame (replicate 512 (Fin 50)) []) 0 = Inr v)"
  using compressed_reads_within_amplitudes [of 0 "replicate 512 (Fin 50)" "[]"] bucket_terms_0
  by (simp add: amplitude_cases)

subsection \<open>Range of the emitted spectrum\<close>

text \<open>
  C4. Every spectrum emitted by \<open>run\<close> has 256 elements and each is a finite number in
  \<open>[0,1]\<close>, whatever the buffer, the frame and the shaping mode (\<open>compressed s\<close>).
\<close>

theorem emitted_spectrum_in_unit_interval:
  assumes "run s = Inr (s', Some (CalculatedSpectrum sp))"
  shows "length sp = 256 \<and> (\<forall>v \<in> set sp. in_unit v)"
proof -
  obtain p n where pn: "pass s = Some p" "numberOfChunks s = Some n" "p \<noteq> n" "0 \<le> p"
    "p * 512 + 512 \<le> int (length (array s))"
    using run_emits_spectrum [OF assms] by blast
  obtain sp' where sp': "run s = Inr (s\<lparr>spectrum := sp', pass := Some (p + 1)\<rparr>, Some (CalculatedSpectrum sp'))"
    "length sp' = 256" "\<forall>v \<in> set sp'. in_unit v"
    using run_frame [OF pn] by blast
  then have "sp' = sp" using assms by simp
  then show ?thesis using sp' by simp
qed

theorem emitted_spectrum_in_unit_interval_witness:
  "\<exists>s0 s1 sp s2 sq. processBuffer BufferProcessor_init (replicate 512 0) 1000 = Inr s0
     \<and> run s0 = Inr (s1, Some (CalculatedSpectrum sp)) \<and> length sp = 256 \<and> list_all in_unit sp
     \<and> run (s0\<lparr>compressed := False\<rparr>) = Inr (s2, Some (CalculatedSpectrum sq))
     \<and> length sq = 256 \<and> list_all in_unit sq"
proof -
  let ?s0 = "BufferProcessor_init\<lparr>numberOfChunks := Some 1, array := replicate 512 0,
              interval := Some 1000, pass := Some 0, timer := Some 1000\<rparr>"
  let ?l0 = "?s0\<lparr>compressed := False\<rparr>"
  obtain sp where sp: "run ?s0 = Inr (?s0\<lparr>spectrum := sp, pass := Some (0 + 1)\<rparr>, Some (CalculatedSpectrum sp))"
    using run_frame [of ?s0 0 1] by auto
  obtain sq where sq: "run ?l0 = Inr (?l0\<lparr>spectrum := sq, pass := Some (0 + 1)\<rparr>, Some (CalculatedSpectrum sq))"
    using run_frame [of ?l0 0 1] by auto
  have "length sp = 256 \<and> list_all in_unit sp"
    using emitted_spectrum_in_unit_interval [OF sp] by (simp add: list_all_iff)
  moreover have "length sq = 256 \<and> list_all in_unit sq"
    using emitted_spectrum_in_unit_interval [OF sq] by (simp add: list_all_iff)
  ultimately show ?thesis using submit_512 sp sq by blast
qed

text \<open>
  C3. Whatever the magnitudes of the transformed frame are (NaN and the infinities
  included): a NaN amplitude is replaced by 0 by the comparison in \<open>qMax\<close> before it is
  used; the value handed to \<open>CLAMP\<close> for a bucket is never NaN or +Inf, it can only be
  -Inf, from the logarithm of a zero sum, which \<open>CLAMP\<close> replaces by 0; and no element of
  the emitted spectrum is NaN or infinite, in either mode.
\<close>

theorem nan_and_inf_never_reach_spectrum:
  assumes "256 \<le> length mags"
  shows "amplitude NaN = Fin 0
       \<and> (\<forall>i<256. \<exists>v. bucket_val (amplitude_frame mags res) i = Inr v \<and> v \<noteq> NaN \<and> v \<noteq> PInf)
       \<and> CLAMP NInf (Fin 0) (Fin 1) = Fin 0
       \<and> (\<exists>sp. shaping c mags res = Inr sp \<and> length sp = 256 \<and> (\<forall>v \<in> set sp. is_finite v))"
proof (intro conjI allI impI)
  show "amplitude NaN = Fin 0" by (simp add: amplitude_cases)
  show "CLAMP NInf (Fin 0) (Fin 1) = Fin 0" by (simp add: CLAMP_def)
next
  fix i :: nat assume "i < 256"
  then obtain v where "bucket_val (amplitude_frame mags res) i = Inr v" "v = NInf \<or> is_finite v"
    using bucket_val_not_nan [OF _ assms] by blast
  then show "\<exists>v. bucket_val (amplitude_frame mags res) i = Inr v \<and> v \<noteq> NaN \<and> v \<noteq> PInf"
    by auto
next
  obtain sp where sp: "shaping c mags res = Inr sp" "length sp = 256" "\<forall>v \<in> set sp. in_unit v"
    using shaping_unit [OF assms] by blast
  have "is_finite v" if "in_unit v" for v using that by (cases v) auto
  then show "\<exists>sp. shaping c mags res = Inr sp \<and> length sp = 256 \<and> (\<forall>v \<in> set sp. is_finite v)"
    using sp by auto
qed

theorem nan_and_inf_never_reach_spectrum_witness:
  "256 \<le> length (replicate 512 NaN) \<and>
   (\<exists>sp. shaping True (replicate 512 NaN) (replicate 512 NaN) = Inr sp \<and> list_all is_finite sp)"
  using nan_and_inf_never_reach_spectrum [of "replicate 512 NaN" "replicate 512 NaN" True] by (auto simp: list_all_iff)

subsection \<open>The transform computes the discrete Fourier transform\<close>

lemma sum_even_odd:
  fixes f :: "nat \<Rightarrow> complex"
  shows "(\<Sum>i<2 * h. f i) = (\<Sum>i<h. f (2 * i)) + (\<Sum>i<h. f (2 * i + 1))"
  by (induction h) (simp_all add: algebra_simps)

lemma nth_slice: "j < h \<Longrightarrow> slice s h 2 x ! j = x ! (s + j * 2)"
  by (simp add: slice_def)

lemma length_slice [simp]: "length (slice s h st x) = h"
  by (simp add: slice_def)

lemma foldl_butterfly_nth:
  assumes "length x = 2 * h" and "m \<le> h" and "j < 2 * h"
  shows "foldl (butterfly_step es os) x [0..<m] ! j =
           (if j < m then es ! j + twiddle j (2 * h) * os ! j
            else if h \<le> j \<and> j < h + m then es ! (j - h) - twiddle (j - h) (2 * h) * os ! (j - h)
            else x ! j)"
  using assms(2)
proof (induction m)
  case 0
  then show ?case by auto
next
  case (Suc m)
  let ?y = "foldl (butterfly_step es os) x [0..<m]"
  have len: "length ?y = 2 * h" using assms(1) by (simp add: length_foldl_butterfly)
  have ih: "?y ! j =
           (if j < m then es ! j + twiddle j (2 * h) * os ! j
            else if h \<le> j \<and> j < h + m then es ! (j - h) - twiddle (j - h) (2 * h) * os ! (j - h)
            else x ! j)"
    using Suc by simp
  have "foldl (butterfly_step es os) x [0..<Suc m] = butterfly_step es os ?y m" by simp
  also have "\<dots> ! j = (if j = m + h then es ! m - twiddle m (2 * h) * os ! m
                        else if j = m then es ! m + twiddle m (2 * h) * os ! m else ?y ! j)"
    using len assms(3) Suc.prems by (simp add: butterfly_step_def Let_def nth_list_update)
  finally show ?case using ih Suc.prems by (auto simp: add.commute)
qed

lemma butterfly_nth:
  assumes "length x = 2 * h" and "j < 2 * h"
  shows "butterfly x es os ! j =
           (if j < h then es ! j + twiddle j (2 * h) * os ! j
            else es ! (j - h) - twiddle (j - h) (2 * h) * os ! (j - h))"
  using foldl_butterfly_nth [OF assms(1) order_refl assms(2), of es os] assms
  by (simp add: butterfly_def)

lemma cis_shift: "a = b + 2 * pi * of_int m \<Longrightarrow> cis a = cis b"
proof -
  assume "a = b + 2 * pi * of_int m"
  then have "cis a = cis b * cis (2 * pi * of_int m)" by (simp only: cis_mult)
  also have "cis (2 * pi * of_int m) = 1" by (rule cis_multiple_2pi) simp
  finally show ?thesis by simp
qed

lemma cis_shift_pi: "a = b + - pi \<Longrightarrow> cis a = - cis b"
proof -
  assume "a = b + - pi"
  then have "cis a = cis b * cis (- pi)" by (simp only: cis_mult)
  also have "cis (- pi) = - 1" by (simp add: cis_cnj [symmetric])
  finally show ?thesis by simp
qed

lemma dft_periodic: "dft y (k + length y) = dft y k"
proof (cases "length y = 0")
  case True
  then show ?thesis by (simp add: dft_def)
next
  case False
  have "cis (- 2 * pi * real j * real (k + length y) / real (length y))
        = cis (- 2 * pi * real j * real k / real (length y))" for j
  proof (rule cis_shift [where m = "- int j"])
    show "- 2 * pi * real j * real (k + length y) / real (length y)
          = - 2 * pi * real j * real k / real (length y) + 2 * pi * of_int (- int j)"
      using False by (simp add: field_simps)
  qed
  then show ?thesis by (simp only: dft_def)
qed

lemma dft_split:
  assumes "length x = 2 * h" and "0 < h"
  shows "dft x j = dft (slice 0 h 2 x) j + cis (- 2 * pi * real j / real (2 * h)) * dft (slice 1 h 2 x) j"
proof -
  have "dft x j = (\<Sum>i<2 * h. x ! i * cis (- 2 * pi * real i * real j / real (2 * h)))"
    using assms by (simp only: dft_def)
  also have "\<dots> = (\<Sum>i<h. x ! (2 * i) * cis (- 2 * pi * real (2 * i) * real j / real (2 * h)))
                 + (\<Sum>i<h. x ! (2 * i + 1) * cis (- 2 * pi * real (2 * i + 1) * real j / real (2 * h)))"
    by (rule sum_even_odd)
  also have "(\<Sum>i<h. x ! (2 * i) * cis (- 2 * pi * real (2 * i) * real j / real (2 * h)))
             = dft (slice 0 h 2 x) j"
  proof -
    have "x ! (2 * i) * cis (- 2 * pi * real (2 * i) * real j / real (2 * h))
          = slice 0 h 2 x ! i * cis (- 2 * pi * real i * real j / real h)"
      if "i \<in> {..<h}" for i
    proof -
      have "- 2 * pi * real (2 * i) * real j / real (2 * h) = - 2 * pi * real i * real j / real h"
        using assms(2) by (simp add: field_simps)
      moreover have "slice 0 h 2 x ! i = x ! (2 * i)"
        using that by (simp add: nth_slice mult.commute)
      ultimately show ?thesis by (simp only:)
    qed
    then show ?thesis
      unfolding dft_def length_slice by (intro sum.cong refl)
  qed
  also have "(\<Sum>i<h. x ! (2 * i + 1) * cis (- 2 * pi * real (2 * i + 1) * real j / real (2 * h)))
             = cis (- 2 * pi * real j / real (2 * h)) * dft (slice 1 h 2 x) j"
  proof -
    have "x ! (2 * i + 1) * cis (- 2 * pi * real (2 * i + 1) * real j / real (2 * h))
          = cis (- 2 * pi * real j / real (2 * h)) * (slice 1 h 2 x ! i * cis (- 2 * pi * real i * real j / real h))"
      if "i \<in> {..<h}" for i
    proof -
      have "- 2 * pi * real (2 * i + 1) * real j / real (2 * h)
            = - 2 * pi * real j / real (2 * h) + - 2 * pi * real i * real j / real h"
        using assms(2) by (simp add: field_simps)
      then have "cis (- 2 * pi * real (2 * i + 1) * real j / real (2 * h))
            = cis (- 2 * pi * real j / real (2 * h)) * cis (- 2 * pi * real i * real j / real h)"
        by (simp only: cis_mult)
      moreover have "slice 1 h 2 x ! i = x ! (2 * i + 1)"
        using that by (simp add: nth_slice mult.commute)
      ultimately show ?thesis by (simp only: mult_ac)
    qed
    then show ?thesis
      unfolding dft_def length_slice sum_distrib_left by (intro sum.cong refl)
  qed
  finally show ?thesis .
qed

lemma twiddle_half: "0 < h \<Longrightarrow> cis (- 2 * pi * real (j + h) / real (2 * h)) = - twiddle j (2 * h)"
  unfolding twiddle_def by (rule cis_shift_pi) (simp add: field_simps)

lemma fft_eq_dft:
  assumes "length x = 2 ^ n"
  shows "fft x = map (dft x) [0..<length x]"
  using assms
proof (induction n arbitrary: x)
  case 0
  then obtain a where x: "x = [a]" by (cases x) auto
  show ?case by (subst fft.simps) (simp add: x dft_def)
next
  case (Suc n)
  define h :: nat where "h = 2 ^ n"
  have len: "length x = 2 * h" and h: "0 < h" using Suc.prems by (simp_all add: h_def)
  let ?E = "slice 0 h 2 x" and ?O = "slice 1 h 2 x"
  have E: "fft ?E = map (dft ?E) [0..<h]" using Suc.IH [of ?E] by (simp add: h_def)
  have O: "fft ?O = map (dft ?O) [0..<h]" using Suc.IH [of ?O] by (simp add: h_def)
  have unfold: "fft x = butterfly x (fft ?E) (fft ?O)"
    using len h by (subst fft.simps) simp
  show ?case
  proof (rule nth_equalityI)
    show "length (fft x) = length (map (dft x) [0..<length x])" by simp
  next
    fix j assume "j < length (fft x)"
    then have j: "j < 2 * h" using len by simp
    show "fft x ! j = map (dft x) [0..<length x] ! j"
    proof (cases "j < h")
      case True
      have "fft ?E ! j = dft ?E j" "fft ?O ! j = dft ?O j"
        using True by (simp_all only: E O nth_map_upt add_0)
      then have "fft x ! j = dft ?E j + twiddle j (2 * h) * dft ?O j"
        using True by (simp only: unfold butterfly_nth [OF len j] if_True)
      also have "\<dots> = dft x j" using dft_split [OF len h, of j] by (simp add: twiddle_def)
      finally show ?thesis using j len by simp
    next
      case False
      define k where "k = j - h"
      have k: "k < h" "j = k + h" using False j by (simp_all add: k_def)
      have "fft ?E ! k = dft ?E k" "fft ?O ! k = dft ?O k"
        using k(1) by (simp_all only: E O nth_map_upt add_0)
      then have "fft x ! j = dft ?E k - twiddle k (2 * h) * dft ?O k"
        using False by (simp only: unfold butterfly_nth [OF len j] if_False k_def)
      also have "\<dots> = dft ?E (k + length ?E) + cis (- 2 * pi * real (k + h) / real (2 * h)) * dft ?O (k + length ?O)"
        by (simp only: dft_periodic twiddle_half [OF h]) simp
      also have "\<dots> = dft x j" using dft_split [OF len h, of j] k by simp
      finally show ?thesis using j len by simp
    qed
  qed
qed

subsection \<open>Round trip of the transform\<close>

lemma root_sum:
  assumes "i < N" and "j < N"
  shows "(\<Sum>k<N. cis (2 * pi * real k * (real j - real i) / real N)) = (if i = j then of_nat N else 0)"
proof (cases "i = j")
  case True
  then show ?thesis by simp
next
  case False
  define r where "r = cis (2 * pi * (real j - real i) / real N)"
  have N: "0 < N" using assms by simp
  have pow: "cis (2 * pi * real k * (real j - real i) / real N) = r ^ k" for k
    unfolding r_def DeMoivre by (rule arg_cong [where f = cis]) simp
  have "r ^ N = cis (2 * pi * of_int (int j - int i))"
    unfolding r_def DeMoivre using N by (intro arg_cong [where f = cis]) simp
  also have "\<dots> = 1" by (rule cis_multiple_2pi) simp
  finally have rN: "r ^ N = 1" .
  have "r \<noteq> 1"
  proof
    assume "r = 1"
    then have "cos (2 * pi * (real j - real i) / real N) = 1"
      by (simp add: r_def complex_eq_iff)
    then obtain m :: int where m: "2 * pi * (real j - real i) / real N = of_int m * 2 * pi"
      using cos_one_2pi_int by blast
    then have "(2 * pi) * ((real j - real i) / real N) = (2 * pi) * of_int m"
      by (simp add: mult_ac)
    then have "(real j - real i) / real N = of_int m"
      by (simp only: mult_cancel_left) simp
    then have "real j - real i = of_int m * real N" using N by (simp add: field_simps)
    then have "real_of_int (int j - int i) = real_of_int (m * int N)" by simp
    then have e: "int j - int i = m * int N" by (simp only: of_int_eq_iff)
    have "\<bar>int j - int i\<bar> < int N" using assms by linarith
    then have "\<bar>m\<bar> * int N < 1 * int N" using e by (simp add: abs_mult)
    then have "\<bar>m\<bar> < 1" using N by simp
    then have "m = 0" by simp
    then show False using e False by simp
  qed
  then have "(\<Sum>k<N. r ^ k) = (r ^ N - 1) / (r - 1)" by (rule geometric_sum)
  then show ?thesis using False rN by (simp add: pow)
qed

lemma cnj_dft_cnj:
  "cnj (dft (map cnj y) j) = (\<Sum>k<length y. y ! k * cis (2 * pi * real k * real j / real (length y)))"
proof -
  have "cnj (dft (map cnj y) j)
        = (\<Sum>k<length y. cnj (cnj (y ! k) * cis (- 2 * pi * real k * real j / real (length y))))"
    by (simp add: dft_def)
  also have "\<dots> = (\<Sum>k<length y. y ! k * cis (2 * pi * real k * real j / real (length y)))"
    by (rule sum.cong) (simp_all add: cis_cnj)
  finally show ?thesis .
qed

lemma inverse_dft:
  assumes "j < length x" and "y = map (dft x) [0..<length x]"
  shows "(\<Sum>k<length y. y ! k * cis (2 * pi * real k * real j / real (length y)))
         = of_nat (length x) * x ! j"
proof -
  define N where "N = length x"
  have leny: "length y = N" using assms(2) by (simp add: N_def)
  have "(\<Sum>k<N. y ! k * cis (2 * pi * real k * real j / real N))
        = (\<Sum>k<N. \<Sum>i<N. x ! i * cis (2 * pi * real k * (real j - real i) / real N))"
  proof (rule sum.cong [OF refl])
    fix k assume "k \<in> {..<N}"
    then have k: "k < N" by simp
    have "y ! k = (\<Sum>i<N. x ! i * cis (- 2 * pi * real i * real k / real N))"
      using k assms(2) by (simp add: N_def dft_def)
    moreover have "x ! i * cis (- 2 * pi * real i * real k / real N) * cis (2 * pi * real k * real j / real N)
          = x ! i * cis (2 * pi * real k * (real j - real i) / real N)" for i
    proof -
      have "- 2 * pi * real i * real k + 2 * pi * real k * real j
            = 2 * pi * real k * (real j - real i)"
        by (simp add: algebra_simps)
      then have "- 2 * pi * real i * real k / real N + 2 * pi * real k * real j / real N
            = 2 * pi * real k * (real j - real i) / real N"
        by (simp only: add_divide_distrib [symmetric])
      then show ?thesis by (simp only: mult.assoc cis_mult)
    qed
    ultimately show "y ! k * cis (2 * pi * real k * real j / real N)
        = (\<Sum>i<N. x ! i * cis (2 * pi * real k * (real j - real i) / real N))"
      by (simp only: sum_distrib_right)
  qed
  also have "\<dots> = (\<Sum>i<N. \<Sum>k<N. x ! i * cis (2 * pi * real k * (real j - real i) / real N))"
    by (rule sum.swap)
  also have "\<dots> = (\<Sum>i<N. x ! i * (if i = j then of_nat N else 0))"
  proof (rule sum.cong [OF refl])
    fix i assume "i \<in> {..<N}"
    then have "i < N" by simp
    then show "(\<Sum>k<N. x ! i * cis (2 * pi * real k * (real j - real i) / real N))
               = x ! i * (if i = j then of_nat N else 0)"
      using assms(1) unfolding sum_distrib_left [symmetric] N_def
      by (simp only: root_sum)
  qed
  also have "\<dots> = of_nat N * x ! j"
    using assms(1) by (simp add: N_def sum.delta' if_distrib [where f = "\<lambda>t. _ * t"] cong: if_cong)
  finally show ?thesis by (simp only: leny N_def)
qed

text \<open>
  C5. For a complex sequence whose length is a power of two, the inverse transform
  (conjugate, forward transform, conjugate, divide by the length) applied to the forward
  transform returns the sequence. In the arithmetic of this development, real numbers
  without rounding, the round trip is exact.
\<close>

theorem inverse_transform_of_transform:
  assumes "length x = 2 ^ n"
  shows "ifft (fft x) = x"
proof (rule nth_equalityI)
  show "length (ifft (fft x)) = length x" by (simp add: ifft_def Let_def)
next
  fix j assume "j < length (ifft (fft x))"
  then have j: "j < length x" by (simp add: ifft_def Let_def)
  define y where "y = fft x"
  have y: "y = map (dft x) [0..<length x]" unfolding y_def using assms by (rule fft_eq_dft)
  have leny: "length y = length x" by (simp add: y_def)
  have "length (map cnj y) = 2 ^ n" using assms leny by simp
  then have "fft (map cnj y) = map (dft (map cnj y)) [0..<length (map cnj y)]" by (rule fft_eq_dft)
  then have "fft (map cnj y) ! j = dft (map cnj y) j" using j leny by simp
  then have "ifft y ! j = cnj (dft (map cnj y) j) / of_nat (length x)"
    using j leny by (simp add: ifft_def Let_def)
  also have "\<dots> = (of_nat (length x) * x ! j) / of_nat (length x)"
    by (simp only: cnj_dft_cnj inverse_dft [OF j y])
  also have "\<dots> = x ! j"
  proof -
    have "length x \<noteq> 0" using j by auto
    then show ?thesis by simp
  qed
  finally show "ifft (fft x) ! j = x ! j" by (simp only: y_def)
qed

theorem inverse_transform_of_transform_witness:
  "length [1, 2, 3, 4 :: complex] = 2 ^ 2 \<and> ifft (fft [1, 2, 3, 4]) = [1, 2, 3, 4]"
  using inverse_transform_of_transform [of "[1, 2, 3, 4]" 2] by simp

end
